theory Spec2Isabelle
  imports Main
begin

section \<open>The response reader of Sodaq\_Ublox.cpp\<close>

text \<open>
  A shallow embedding of the reading side of \<^verbatim>\<open>src/src/Sodaq_Ublox.cpp\<close>:
  \<^verbatim>\<open>is_timedout\<close> (line 61), \<^verbatim>\<open>readResponse\<close> (157--230), \<^verbatim>\<open>timedRead\<close> (233--246),
  \<^verbatim>\<open>readBytesUntil\<close> (253--276), \<^verbatim>\<open>readLn\<close> (302--318) and \<^verbatim>\<open>startsWith\<close> (491).

  \<^item> Bytes are \<^typ>\<open>char\<close>. A \<^verbatim>\<open>size_t\<close> is a natural number below \<open>2 ^ 32\<close> and an
    \<^verbatim>\<open>int\<close> is an integer, both 32 bits wide as on the SAMD21 boards the library is
    written for; every \<^verbatim>\<open>size_t\<close> operation of the source and every conversion between
    \<^verbatim>\<open>size_t\<close> and \<^verbatim>\<open>int\<close> is written with its wrap-around.
  \<^item> The state of the driver and of what surrounds it is the record \<open>modem\<close>, passed
    through every function. The line buffer \<^verbatim>\<open>_inputBuffer\<close> is a list of bytes as long
    as \<^verbatim>\<open>_inputBufferSize\<close>; the caller's output buffer is a list as long as the memory
    the caller owns.
  \<^item> An index of the line buffer is a \<^verbatim>\<open>size_t\<close>: the only index outside the buffer that
    \<^verbatim>\<open>readLn\<close> can form for a buffer of at least one byte is \<^verbatim>\<open>SIZE_MAX\<close>, which on the
    flat address space of the target is the byte just below the buffer. That byte is the
    field \<open>below\<close>, and every access outside the buffer is recorded in \<open>stray\<close>.
  \<^item> The UART and the clock: \<open>rx\<close> holds the bytes still to come, each with the time
    after which it is there once the byte before it was taken; \<open>clock\<close> is what
    \<^verbatim>\<open>millis()\<close> returns. Time passes only while \<^verbatim>\<open>timedRead\<close> polls. The clock is a
    natural number: the wrap of \<^verbatim>\<open>millis()\<close> after 49.7 days is not modelled, so
    \<^verbatim>\<open>millis() - from\<close> is the time gone by.
  \<^item> \<^verbatim>\<open>sodaq_wdt_reset\<close> and \<^verbatim>\<open>checkURC\<close> are known by their calls only: the first is
    counted in \<open>wdt\<close>; the second, a virtual function of the driver, is a parameter, a
    predicate on the line, and its arguments are recorded in \<open>offered\<close>. The indices
    written in the output buffer are recorded in \<open>written\<close>. The diagnostic prints do
    nothing that is modelled.
\<close>

subsection \<open>Machine integers\<close>

definition SIZE_T :: nat where
  \<comment> \<open>the number of values of a \<^verbatim>\<open>size_t\<close>\<close>
  "SIZE_T = 2 ^ 32"

definition size_sub :: "nat \<Rightarrow> nat \<Rightarrow> nat" where
  \<comment> \<open>\<^verbatim>\<open>a - b\<close> on \<^verbatim>\<open>size_t\<close>\<close>
  "size_sub a b = (a + SIZE_T - b mod SIZE_T) mod SIZE_T"

definition size_add :: "nat \<Rightarrow> nat \<Rightarrow> nat" where
  \<comment> \<open>\<^verbatim>\<open>a + b\<close> on \<^verbatim>\<open>size_t\<close>\<close>
  "size_add a b = (a + b) mod SIZE_T"

definition to_int :: "nat \<Rightarrow> int" where
  \<comment> \<open>a \<^verbatim>\<open>size_t\<close> stored in an \<^verbatim>\<open>int\<close>\<close>
  "to_int n = (if n mod SIZE_T < 2 ^ 31 then int (n mod SIZE_T) else int (n mod SIZE_T) - 2 ^ 32)"

definition to_size :: "int \<Rightarrow> nat" where
  \<comment> \<open>an \<^verbatim>\<open>int\<close> used where a \<^verbatim>\<open>size_t\<close> is expected\<close>
  "to_size i = nat (i mod 2 ^ 32)"

subsection \<open>Characters and C strings\<close>

definition NUL :: char where "NUL = CHR 0x00"
definition LF :: char where "LF = CHR 0x0A"
definition CR :: char where "CR = CHR 0x0D"

definition cstr :: "char list \<Rightarrow> string" where
  \<comment> \<open>the C string that starts at the first byte of a buffer: the bytes before its first NUL\<close>
  "cstr buf = takeWhile (\<lambda>c. c \<noteq> NUL) buf"

fun startsWith :: "string \<Rightarrow> string \<Rightarrow> bool" where
  \<comment> \<open>\<^verbatim>\<open>strncmp(pre, str, strlen(pre)) == 0\<close> on two C strings: \<open>str\<close> agrees with every
      character of \<open>pre\<close>; if \<open>str\<close> ends first, its NUL differs from a character of \<open>pre\<close>\<close>
  "startsWith [] str = True"
| "startsWith (p # pre) [] = False"
| "startsWith (p # pre) (c # str) = (p = c \<and> startsWith pre str)"

subsection \<open>The driver and its surroundings\<close>

datatype GSMResponseTypes = GSMResponseOK | GSMResponseError | GSMResponseTimeout

record modem =
  clock :: nat
    \<comment> \<open>what \<^verbatim>\<open>millis()\<close> returns\<close>
  rx :: "(nat \<times> char) list"
    \<comment> \<open>the bytes \<^verbatim>\<open>_modemUART\<close> still delivers, in order, each with the number of
        milliseconds after which \<^verbatim>\<open>_modemUART->read()\<close> has it\<close>
  inputBuffer :: "char list"
    \<comment> \<open>the bytes of \<^verbatim>\<open>_inputBuffer\<close>; there are \<^verbatim>\<open>_inputBufferSize\<close> of them\<close>
  below :: char
    \<comment> \<open>the byte of memory just below \<^verbatim>\<open>_inputBuffer\<close>, which \<^verbatim>\<open>_inputBuffer[SIZE_MAX]\<close> is\<close>
  stray :: "nat list"
    \<comment> \<open>the indices of the accesses to \<^verbatim>\<open>_inputBuffer\<close> made outside it, latest first\<close>
  outBuffer :: "char list option"
    \<comment> \<open>the bytes of the caller's buffer; \<open>None\<close> when the pointer \<^verbatim>\<open>outBuffer\<close> is NULL\<close>
  written :: "nat list"
    \<comment> \<open>the indices of \<^verbatim>\<open>outBuffer\<close> written so far, latest first\<close>
  wdt :: nat
    \<comment> \<open>how often \<^verbatim>\<open>sodaq_wdt_reset()\<close> was called\<close>
  offered :: "string list"
    \<comment> \<open>the lines passed to \<^verbatim>\<open>checkURC\<close>, latest first\<close>

definition is_timedout :: "nat \<Rightarrow> nat \<Rightarrow> modem \<Rightarrow> bool" where
  \<comment> \<open>\<^verbatim>\<open>(millis() - from) > nr_ms\<close>\<close>
  "is_timedout from nr_ms m = (clock m - from > nr_ms)"

definition peek :: "nat \<Rightarrow> modem \<Rightarrow> char" where
  \<comment> \<open>\<^verbatim>\<open>buffer[i]\<close> read; outside the buffer the code only forms the index
      \<^verbatim>\<open>SIZE_MAX\<close>, one byte below it\<close>
  "peek i m = (if i < length (inputBuffer m) then inputBuffer m ! i else below m)"

definition touch :: "nat \<Rightarrow> modem \<Rightarrow> modem" where
  \<comment> \<open>records a read of \<^verbatim>\<open>buffer[i]\<close> that is outside the buffer\<close>
  "touch i m = (if i < length (inputBuffer m) then m else m\<lparr>stray := i # stray m\<rparr>)"

definition poke :: "nat \<Rightarrow> char \<Rightarrow> modem \<Rightarrow> modem" where
  \<comment> \<open>\<^verbatim>\<open>buffer[i] = c\<close>\<close>
  "poke i c m =
     (if i < length (inputBuffer m) then m\<lparr>inputBuffer := (inputBuffer m)[i := c]\<rparr>
      else m\<lparr>below := c, stray := i # stray m\<rparr>)"

definition poke_out :: "nat \<Rightarrow> char \<Rightarrow> modem \<Rightarrow> modem" where
  \<comment> \<open>\<^verbatim>\<open>outBuffer[i] = c\<close>; the index is recorded, a write past the bytes the caller
      owns changes none of them\<close>
  "poke_out i c m =
     m\<lparr>outBuffer := map_option (\<lambda>b. b[i := c]) (outBuffer m), written := i # written m\<rparr>"

definition sodaq_wdt_reset :: "modem \<Rightarrow> modem" where
  "sodaq_wdt_reset m = m\<lparr>wdt := Suc (wdt m)\<rparr>"

definition getInputBuffer :: "modem \<Rightarrow> string" where
  \<comment> \<open>\<^verbatim>\<open>getInputBuffer()\<close> read as a C string\<close>
  "getInputBuffer m = cstr (inputBuffer m)"

subsection \<open>Reading bytes and lines\<close>

definition timedRead :: "nat \<Rightarrow> modem \<Rightarrow> char option \<times> modem" where
  \<comment> \<open>the polling loop as a whole: the next byte if the UART has it within \<open>timeout\<close>
      milliseconds; otherwise \<open>None\<close> (the source's -1) once \<^verbatim>\<open>is_timedout\<close> holds,
      which is \<open>timeout + 1\<close> milliseconds after the call\<close>
  "timedRead timeout m =
     (case rx m of
        [] \<Rightarrow> (None, m\<lparr>clock := clock m + timeout + 1\<rparr>)
      | (d, c) # rest \<Rightarrow>
          if d \<le> timeout then (Some c, m\<lparr>clock := clock m + d, rx := rest\<rparr>)
          else (None, m\<lparr>clock := clock m + timeout + 1, rx := (d - (timeout + 1), c) # rest\<rparr>))"

function readBytesUntil_loop :: "char \<Rightarrow> nat \<Rightarrow> nat \<Rightarrow> nat \<Rightarrow> modem \<Rightarrow> nat \<times> modem" where
  \<comment> \<open>the \<^verbatim>\<open>while (index < length)\<close> loop of \<^verbatim>\<open>readBytesUntil\<close>; the pointer \<^verbatim>\<open>buffer\<close>
      moves with \<^verbatim>\<open>index\<close>, so \<^verbatim>\<open>*buffer++ = c\<close> stores at the index\<close>
  "readBytesUntil_loop terminator lengthN timeout index m =
     (if index < lengthN then
        (case timedRead timeout m of
           (None, m') \<Rightarrow> (index, m')
         | (Some c, m') \<Rightarrow>
             if c = terminator then (index, m')
             else readBytesUntil_loop terminator lengthN timeout (Suc index) (poke index c m'))
      else (index, m))"
  by pat_completeness auto
termination
  by (relation "measure (\<lambda>(terminator, lengthN, timeout, index, m). lengthN - index)") auto

declare readBytesUntil_loop.simps [simp del]

definition readBytesUntil :: "char \<Rightarrow> nat \<Rightarrow> nat \<Rightarrow> modem \<Rightarrow> nat \<times> modem" where
  \<comment> \<open>\<^verbatim>\<open>readBytesUntil(terminator, buffer, length, timeout)\<close> on the driver's input buffer\<close>
  "readBytesUntil terminator lengthN timeout m =
     (if lengthN < 1 then (0, m)
      else
        (case readBytesUntil_loop terminator lengthN timeout 0 m of
           (index, m') \<Rightarrow> (index, if index < lengthN then poke index NUL m' else m')))"

definition readLn :: "nat \<Rightarrow> nat \<Rightarrow> modem \<Rightarrow> nat \<times> modem" where
  \<comment> \<open>\<^verbatim>\<open>readLn(buffer, size, timeout)\<close> on the driver's input buffer; the terminator is
      CR LF, so \<^verbatim>\<open>SODAQ_UBLOX_TERMINATOR_LEN - 1\<close> is 1\<close>
  "readLn sizeN timeout m =
     (case readBytesUntil LF (size_sub sizeN 1) timeout m of
        (len, m1) \<Rightarrow>
          (let i = size_sub len 1;
               m2 = touch i m1;
               len' = (if peek i m2 = CR then size_sub len 1 else len)
           in (len', poke len' NUL m2)))"

definition readLn_input :: "nat \<Rightarrow> modem \<Rightarrow> nat \<times> modem" where
  \<comment> \<open>Modelled from the spec: the overload \<^verbatim>\<open>readLn(timeout)\<close> that \<^verbatim>\<open>readResponse\<close>
      calls is declared in the header, which is not among the sources. The spec has the
      line framer fill the driver's own line buffer up to its configured capacity.\<close>
  "readLn_input timeout m = readLn (length (inputBuffer m)) timeout m"

subsection \<open>Reading a response\<close>

fun memcpy :: "nat \<Rightarrow> nat \<Rightarrow> nat \<Rightarrow> modem \<Rightarrow> modem" where
  \<comment> \<open>\<^verbatim>\<open>memcpy(outBuffer + d, _inputBuffer + s, n)\<close>\<close>
  "memcpy d s 0 m = m"
| "memcpy d s (Suc n) m = memcpy (Suc d) (Suc s) n (poke_out d (peek s m) m)"

definition assemble :: "bool \<Rightarrow> string option \<Rightarrow> nat \<Rightarrow> int \<Rightarrow> nat \<Rightarrow> modem \<Rightarrow> nat \<times> modem" where
  \<comment> \<open>the body of \<^verbatim>\<open>if (hasPrefix || (!usePrefix && useOutBuffer))\<close>; it returns the new
      \<^verbatim>\<open>outSize\<close>\<close>
  "assemble hasPrefix prefix outMaxSize count outSize m =
     (case (if 0 < outSize \<and> outSize < size_sub outMaxSize 1
            then (size_add outSize 1, poke_out outSize LF m) else (outSize, m)) of
        (outSize1, m1) \<Rightarrow>
          if outSize1 < size_sub outMaxSize 1 then
            (let i = (if hasPrefix then to_int (length (the prefix)) else 0);
                 count1 = count - i;
                 inBuffer = to_size i;
                 count2 = (if size_add outSize1 (to_size count1) > size_sub outMaxSize 1
                           then to_int (size_sub (size_sub outMaxSize 1) outSize1) else count1);
                 m2 = memcpy outSize1 inBuffer (to_size count2) m1;
                 outSize2 = size_add outSize1 (to_size count2)
             in (outSize2, poke_out outSize2 NUL m2))
          else (outSize1, m1))"

definition loop_body ::
  "(string \<Rightarrow> bool) \<Rightarrow> nat \<Rightarrow> string option \<Rightarrow> bool \<Rightarrow> bool \<Rightarrow> nat \<Rightarrow> modem
     \<Rightarrow> GSMResponseTypes option \<times> nat \<times> modem" where
  \<comment> \<open>one turn of the \<^verbatim>\<open>while\<close> loop of \<^verbatim>\<open>readResponse\<close>: \<open>Some r\<close> for \<^verbatim>\<open>return r\<close>,
      \<open>None\<close> when the loop goes on, with the new \<^verbatim>\<open>outSize\<close>\<close>
  "loop_body checkURC outMaxSize prefix usePrefix useOutBuffer outSize m =
     (case readLn_input 250 m of
        (len, m1) \<Rightarrow>
          (let count = to_int len;
               m2 = sodaq_wdt_reset m1;
               line = getInputBuffer m2
           in if count \<le> 0 then (None, outSize, m2)
              else if startsWith ''AT'' line then (None, outSize, m2)
              else if startsWith ''OK'' line then (Some GSMResponseOK, outSize, m2)
              else if startsWith ''ERROR'' line \<or> startsWith ''+CME ERROR:'' line
                      \<or> startsWith ''+CMS ERROR:'' line
                then (Some GSMResponseError, outSize, m2)
              else
                (let hasPrefix = (usePrefix \<and> useOutBuffer \<and> startsWith (the prefix) line);
                     m3 = (if hasPrefix then m2 else m2\<lparr>offered := line # offered m2\<rparr>)
                 in if \<not> hasPrefix \<and> checkURC line then (None, outSize, m3)
                    else if hasPrefix \<or> (\<not> usePrefix \<and> useOutBuffer)
                      then (case assemble hasPrefix prefix outMaxSize count outSize m3 of
                              (outSize', m4) \<Rightarrow> (None, outSize', m4))
                    else (None, outSize, m3))))"

partial_function (option) readResponse_loop ::
  "(string \<Rightarrow> bool) \<Rightarrow> nat \<Rightarrow> string option \<Rightarrow> bool \<Rightarrow> bool \<Rightarrow> nat \<Rightarrow> nat \<Rightarrow> nat \<Rightarrow> modem
     \<Rightarrow> (GSMResponseTypes \<times> modem) option" where
  "readResponse_loop checkURC outMaxSize prefix usePrefix useOutBuffer timeout from outSize m =
     (if is_timedout from timeout m then Some (GSMResponseTimeout, m)
      else
        (case loop_body checkURC outMaxSize prefix usePrefix useOutBuffer outSize m of
           (Some r, outSize', m') \<Rightarrow> Some (r, m')
         | (None, outSize', m') \<Rightarrow>
             readResponse_loop checkURC outMaxSize prefix usePrefix useOutBuffer timeout from
               outSize' m'))"

declare readResponse_loop.simps [code]

definition readResponse ::
  "(string \<Rightarrow> bool) \<Rightarrow> nat \<Rightarrow> string option \<Rightarrow> nat \<Rightarrow> modem \<Rightarrow> (GSMResponseTypes \<times> modem) option" where
  \<comment> \<open>\<^verbatim>\<open>readResponse(outBuffer, outMaxSize, prefix, timeout)\<close>; the buffer that
      \<^verbatim>\<open>outBuffer\<close> points to is the field \<open>outBuffer\<close> of the state, and \<open>checkURC\<close> is the
      virtual hook of the driver. \<open>None\<close>: the loop never ends.\<close>
  "readResponse checkURC outMaxSize prefix timeout m =
     (let usePrefix = (prefix \<noteq> None \<and> the prefix \<noteq> []);
          useOutBuffer = (outBuffer m \<noteq> None \<and> outMaxSize > 0);
          from = clock m;
          outSize = 0;
          m0 = (if outBuffer m \<noteq> None then poke_out 0 NUL m else m)
      in readResponse_loop checkURC outMaxSize prefix usePrefix useOutBuffer timeout from outSize m0)"

subsection \<open>Auxiliary notions for the statements\<close>

definition line_side :: "modem \<Rightarrow> modem \<Rightarrow> bool" where
  \<comment> \<open>\<open>m'\<close> differs from \<open>m\<close> at most in the clock, the UART input and the memory of the
      line buffer\<close>
  "line_side m m' \<longleftrightarrow> m' = m\<lparr>clock := clock m', rx := rx m', inputBuffer := inputBuffer m',
      below := below m', stray := stray m'\<rparr>"

definition out_side :: "modem \<Rightarrow> modem \<Rightarrow> bool" where
  \<comment> \<open>\<open>m'\<close> differs from \<open>m\<close> at most in the caller's buffer and the record of the writes
      to it\<close>
  "out_side m m' \<longleftrightarrow> m' = m\<lparr>outBuffer := outBuffer m', written := written m'\<rparr>"

definition pending :: "string \<Rightarrow> (nat \<times> char) list" where
  \<comment> \<open>bytes that the UART has already received\<close>
  "pending bytes = map (Pair 0) bytes"

definition idle :: "(nat \<times> char) list \<Rightarrow> string \<Rightarrow> char \<Rightarrow> string option \<Rightarrow> modem" where
  \<comment> \<open>a driver at time 0 with the given UART input, line buffer, byte below the line buffer
      and caller's buffer, before anything was read or written\<close>
  "idle input buf lower out =
     \<lparr>clock = 0, rx = input, inputBuffer = buf, below = lower, stray = [],
      outBuffer = out, written = [], wdt = 0, offered = []\<rparr>"




section \<open>Basic facts\<close>

subsection \<open>Machine integers\<close>

lemma size_sub_simp: "b \<le> a \<Longrightarrow> a < SIZE_T \<Longrightarrow> size_sub a b = a - b"
proof -
  assume h: "b \<le> a" "a < SIZE_T"
  then have "b mod SIZE_T = b" by simp
  then have "size_sub a b = (a + SIZE_T - b) mod SIZE_T" by (simp add: size_sub_def)
  also from h have "a + SIZE_T - b = (a - b) + SIZE_T" by simp
  also have "(a - b + SIZE_T) mod SIZE_T = (a - b) mod SIZE_T" by simp
  also from h have "\<dots> = a - b" by simp
  finally show ?thesis .
qed




subsection \<open>C strings\<close>



lemma cstr_no_NUL: "NUL \<notin> set l \<Longrightarrow> cstr l = l"
  by (induction l) (auto simp: cstr_def)


subsection \<open>Steps of the loops\<close>

lemma rbu_done: "\<not> index < n \<Longrightarrow> readBytesUntil_loop t n to index m = (index, m)"
  by (subst readBytesUntil_loop.simps) simp

lemma rbu_empty: "index < n \<Longrightarrow> rx m = [] \<Longrightarrow>
  readBytesUntil_loop t n to index m = (index, m\<lparr>clock := clock m + to + 1\<rparr>)"
  by (subst readBytesUntil_loop.simps) (simp add: timedRead_def)

lemma rbu_late: "index < n \<Longrightarrow> rx m \<noteq> [] \<Longrightarrow> \<not> fst (hd (rx m)) \<le> to \<Longrightarrow>
  readBytesUntil_loop t n to index m =
    (index, m\<lparr>clock := clock m + to + 1, rx := (fst (hd (rx m)) - (to + 1), snd (hd (rx m))) # tl (rx m)\<rparr>)"
  by (subst readBytesUntil_loop.simps, cases "rx m") (auto simp add: timedRead_def)

lemma rbu_term: "index < n \<Longrightarrow> rx m \<noteq> [] \<Longrightarrow> fst (hd (rx m)) \<le> to \<Longrightarrow> snd (hd (rx m)) = t \<Longrightarrow>
  readBytesUntil_loop t n to index m =
    (index, m\<lparr>clock := clock m + fst (hd (rx m)), rx := tl (rx m)\<rparr>)"
  by (subst readBytesUntil_loop.simps, cases "rx m") (auto simp add: timedRead_def)

lemma rbu_byte: "index < n \<Longrightarrow> rx m \<noteq> [] \<Longrightarrow> fst (hd (rx m)) \<le> to \<Longrightarrow> snd (hd (rx m)) \<noteq> t \<Longrightarrow>
  readBytesUntil_loop t n to index m =
    readBytesUntil_loop t n to (index + 1)
      (poke index (snd (hd (rx m))) (m\<lparr>clock := clock m + fst (hd (rx m)), rx := tl (rx m)\<rparr>))"
  by (subst readBytesUntil_loop.simps, cases "rx m") (auto simp add: timedRead_def)

lemma rl_timeout: "is_timedout from t m \<Longrightarrow>
  readResponse_loop c oms p up uo t from os m = Some (GSMResponseTimeout, m)"
  by (subst readResponse_loop.simps) simp

lemma rl_step: "\<not> is_timedout from t m \<Longrightarrow>
  readResponse_loop c oms p up uo t from os m =
   (case loop_body c oms p up uo os m of
           (Some r, outSize', m') \<Rightarrow> Some (r, m')
         | (None, outSize', m') \<Rightarrow> readResponse_loop c oms p up uo t from outSize' m')"
  by (subst readResponse_loop.simps) simp

lemma memcpy_step: "0 < n \<Longrightarrow> memcpy d s n m = memcpy (d + 1) (s + 1) (n - 1) (poke_out d (peek s m) m)"
  by (cases n) simp_all

subsection \<open>What each operation leaves alone\<close>

lemma line_side_refl: "line_side m m"
  by (simp add: line_side_def)

lemma line_side_trans: "line_side m m1 \<Longrightarrow> line_side m1 m2 \<Longrightarrow> line_side m m2"
  by (cases m, cases m1, cases m2) (simp add: line_side_def)


lemma line_side_fields:
  "line_side m m' \<Longrightarrow> wdt m' = wdt m \<and> offered m' = offered m \<and> outBuffer m' = outBuffer m
     \<and> written m' = written m"
  by (cases m, cases m') (simp add: line_side_def)

lemma timedRead_side: "line_side m (snd (timedRead to m))"
  by (auto simp: timedRead_def line_side_def split: list.splits)

lemma poke_side: "line_side m (poke i c m)"
  by (simp add: poke_def line_side_def)

lemma touch_side: "line_side m (touch i m)"
  by (simp add: touch_def line_side_def)

lemma rbu_loop_side: "line_side m (snd (readBytesUntil_loop t n to i m))"
proof (induction t n to i m rule: readBytesUntil_loop.induct)
  case (1 t n to i m)
  show ?case
  proof (cases "i < n")
    case False
    then show ?thesis by (simp add: rbu_done line_side_refl)
  next
    case True
    obtain r m' where tr: "timedRead to m = (r, m')" by (cases "timedRead to m")
    then have s1: "line_side m m'" using timedRead_side [of m to] by simp
    show ?thesis
    proof (cases r)
      case None
      with True tr s1 show ?thesis by (subst readBytesUntil_loop.simps) simp
    next
      case (Some c)
      show ?thesis
      proof (cases "c = t")
        case True
        with \<open>i < n\<close> tr s1 Some show ?thesis by (subst readBytesUntil_loop.simps) simp
      next
        case False
        from "1.IH" [OF True tr [symmetric] Some False]
        have "line_side (poke i c m') (snd (readBytesUntil_loop t n to (Suc i) (poke i c m')))" .
        then have "line_side m (snd (readBytesUntil_loop t n to (Suc i) (poke i c m')))"
          using s1 poke_side line_side_trans by blast
        with True tr Some False show ?thesis by (subst readBytesUntil_loop.simps) simp
      qed
    qed
  qed
qed

lemma readBytesUntil_side: "line_side m (snd (readBytesUntil t n to m))"
proof -
  obtain i m' where r: "readBytesUntil_loop t n to 0 m = (i, m')"
    by (cases "readBytesUntil_loop t n to 0 m")
  then have "line_side m m'" using rbu_loop_side [of m t n to 0] by simp
  then have "line_side m (poke i NUL m')" using poke_side line_side_trans by blast
  with r \<open>line_side m m'\<close> show ?thesis by (simp add: readBytesUntil_def line_side_refl)
qed

lemma readLn_side: "line_side m (snd (readLn sizeN to m))"
proof -
  obtain len m1 where r: "readBytesUntil LF (size_sub sizeN 1) to m = (len, m1)"
    by (cases "readBytesUntil LF (size_sub sizeN 1) to m")
  then have "line_side m m1" using readBytesUntil_side [of m LF "size_sub sizeN 1" to] by simp
  then have "line_side m (poke k NUL (touch j m1))" for j k
    using poke_side touch_side line_side_trans by blast
  with r show ?thesis by (simp add: readLn_def Let_def)
qed

lemma readLn_input_side: "line_side m (snd (readLn_input to m))"
  by (simp add: readLn_input_def readLn_side)

lemma out_side_refl: "out_side m m"
  by (simp add: out_side_def)

lemma out_side_trans: "out_side m m1 \<Longrightarrow> out_side m1 m2 \<Longrightarrow> out_side m m2"
  by (cases m, cases m1, cases m2) (simp add: out_side_def)

lemma out_side_fields:
  "out_side m m' \<Longrightarrow> wdt m' = wdt m \<and> offered m' = offered m \<and> clock m' = clock m
     \<and> rx m' = rx m \<and> inputBuffer m' = inputBuffer m \<and> below m' = below m \<and> stray m' = stray m"
  by (cases m, cases m') (simp add: out_side_def)

lemma poke_out_side: "out_side m (poke_out i c m)"
  by (simp add: poke_out_def out_side_def)

lemma memcpy_side: "out_side m (memcpy d s n m)"
proof (induction n arbitrary: d s m)
  case 0
  show ?case by (simp add: out_side_refl)
next
  case (Suc n)
  show ?case using Suc [of "poke_out d (peek s m) m" "Suc d" "Suc s"] poke_out_side out_side_trans
    by (simp, blast)
qed

lemma assemble_side: "out_side m (snd (assemble hp p oms count os m))"
proof -
  have a: "out_side m (poke_out k NUL (memcpy d s n m))" for k d s n
    using memcpy_side poke_out_side out_side_trans by blast
  have b: "out_side m (poke_out k NUL (memcpy d s n (poke_out j LF m)))" for k d s n j
    using memcpy_side poke_out_side out_side_trans by blast
  show ?thesis
    by (simp add: assemble_def Let_def a b out_side_refl poke_out_side)
qed

subsection \<open>Running the model on a given input\<close>

lemmas run_defs =
  idle_def pending_def readLn_input_def readLn_def readBytesUntil_def size_sub_def size_add_def
  to_int_def to_size_def SIZE_T_def poke_def peek_def touch_def poke_out_def NUL_def CR_def LF_def
  rbu_done rbu_empty rbu_late rbu_term rbu_byte rl_timeout rl_step memcpy_step
  loop_body_def assemble_def getInputBuffer_def cstr_def sodaq_wdt_reset_def is_timedout_def
  readResponse_def Let_def

section \<open>Framing a line\<close>

lemma rbu_chunk:
  "rx m = ds @ rest \<Longrightarrow> \<forall>x\<in>set ds. fst x \<le> to \<and> snd x \<noteq> t \<Longrightarrow> index + length ds \<le> n
   \<Longrightarrow> n \<le> length (inputBuffer m) \<Longrightarrow>
   readBytesUntil_loop t n to index m =
   readBytesUntil_loop t n to (index + length ds)
     (m\<lparr>clock := clock m + sum_list (map fst ds), rx := rest,
        inputBuffer := take index (inputBuffer m) @ map snd ds
                         @ drop (index + length ds) (inputBuffer m)\<rparr>)"
proof (induction ds arbitrary: index m)
  case Nil
  then have "m\<lparr>rx := rest\<rparr> = m" by (cases m) auto
  then show ?case by simp
next
  case (Cons x ds)
  obtain d c where x: "x = (d, c)" by (cases x)
  let ?B = "inputBuffer m"
  let ?m1 = "poke index c (m\<lparr>clock := clock m + d, rx := ds @ rest\<rparr>)"
  from Cons.prems x have lt: "index < n" and inb: "index < length ?B" by auto
  from Cons.prems x lt have step:
    "readBytesUntil_loop t n to index m = readBytesUntil_loop t n to (index + 1) ?m1"
    by (subst rbu_byte) auto
  from inb have m1: "?m1 = m\<lparr>clock := clock m + d, rx := ds @ rest, inputBuffer := ?B[index := c]\<rparr>"
    by (simp add: poke_def)
  have ih: "readBytesUntil_loop t n to (index + 1) ?m1 =
    readBytesUntil_loop t n to (index + 1 + length ds)
     (?m1\<lparr>clock := clock ?m1 + sum_list (map fst ds), rx := rest,
        inputBuffer := take (index + 1) (inputBuffer ?m1) @ map snd ds
                         @ drop (index + 1 + length ds) (inputBuffer ?m1)\<rparr>)"
    using Cons.prems by (intro Cons.IH) (auto simp: m1)
  have buf: "take (index + 1) (?B[index := c]) @ map snd ds @ drop (index + 1 + length ds) (?B[index := c])
     = take index ?B @ map snd (x # ds) @ drop (index + length (x # ds)) ?B"
    using inb x by (simp add: take_Suc_conv_app_nth)
  show ?case
    unfolding step ih using buf by (simp add: m1 x add.assoc)
qed

lemma crlf_buffer:
  "length l + 2 \<le> length B \<Longrightarrow>
   (l @ CR # drop (length l + 1) B)[length l + 1 := NUL, length l := NUL]
     = l @ [NUL, NUL] @ drop (length l + 2) B"
proof -
  assume h: "length l + 2 \<le> length B"
  then have "drop (length l + 1) B = B ! (length l + 1) # drop (length l + 2) B"
    by (simp add: Cons_nth_drop_Suc)
  then show ?thesis by (simp add: list_update_append)
qed


lemma readLn_crlf_line:
  assumes rx: "rx m = ds @ rest" and bytes: "map snd ds = l @ [CR, LF]"
    and del: "\<forall>x\<in>set ds. fst x \<le> to" and nolf: "LF \<notin> set l"
    and fit: "length l + 3 \<le> sizeN" and sz: "sizeN \<le> length (inputBuffer m)" "sizeN < SIZE_T"
  shows "readLn sizeN to m =
    (length l, m\<lparr>clock := clock m + sum_list (map fst ds), rx := rest,
                   inputBuffer := l @ [NUL, NUL] @ drop (length l + 2) (inputBuffer m)\<rparr>)"
proof -
  let ?B = "inputBuffer m"
  let ?n = "sizeN - 1"
  define ds1 where "ds1 = butlast ds"
  define x where "x = last ds"
  from bytes have ne: "ds \<noteq> []" by auto
  then have ds: "ds = ds1 @ [x]" by (simp add: ds1_def x_def)
  have "map snd ds1 = butlast (map snd ds)"
    unfolding ds1_def by (rule map_butlast)
  with bytes have b1: "map snd ds1 = l @ [CR]"
    by (simp add: butlast_append)
  from ne have "snd x = last (map snd ds)"
    unfolding x_def by (rule last_map [symmetric])
  with bytes have xl: "snd x = LF" by simp
  from b1 have "length (map snd ds1) = length (l @ [CR])" by (rule arg_cong)
  then have len1: "length ds1 = length l + 1" by simp
  have n: "size_sub sizeN 1 = ?n" using fit sz by (simp add: size_sub_simp)
  have nt: "\<forall>y\<in>set ds1. snd y \<noteq> LF"
  proof
    fix y assume "y \<in> set ds1"
    then have "snd y \<in> set (map snd ds1)" by simp
    then have "snd y \<in> set l \<or> snd y = CR" unfolding b1 by auto
    then show "snd y \<noteq> LF" using nolf by (auto simp: CR_def LF_def)
  qed
  from del ds have d1: "\<forall>y\<in>set ds1. fst y \<le> to" and dx: "fst x \<le> to" by auto
  let ?ma = "m\<lparr>clock := clock m + sum_list (map fst ds1), rx := x # rest,
                inputBuffer := l @ CR # drop (length l + 1) ?B\<rparr>"
  have "readBytesUntil_loop LF ?n to 0 m = readBytesUntil_loop LF ?n to (0 + length ds1)
     (m\<lparr>clock := clock m + sum_list (map fst ds1), rx := [x] @ rest,
        inputBuffer := take 0 ?B @ map snd ds1 @ drop (0 + length ds1) ?B\<rparr>)"
    using rx ds d1 nt fit sz len1 by (intro rbu_chunk) auto
  then have c1: "readBytesUntil_loop LF ?n to 0 m = readBytesUntil_loop LF ?n to (length l + 1) ?ma"
    by (simp add: b1 len1)
  have c2: "readBytesUntil_loop LF ?n to (length l + 1) ?ma =
      (length l + 1, ?ma\<lparr>clock := clock ?ma + fst x, rx := rest\<rparr>)"
    using fit dx xl by (subst rbu_term) auto
  have clk: "sum_list (map fst ds) = sum_list (map fst ds1) + fst x" by (simp add: ds)
  have rb: "readBytesUntil LF ?n to m =
     (length l + 1, m\<lparr>clock := clock m + sum_list (map fst ds), rx := rest,
        inputBuffer := (l @ CR # drop (length l + 1) ?B)[length l + 1 := NUL]\<rparr>)"
    unfolding readBytesUntil_def c1 c2 using fit sz by (simp add: poke_def clk)
  have pk: "(l @ CR # drop (length l + 1) ?B)[length l + 1 := NUL] ! length l = CR"
    by (simp add: nth_append)
  show ?thesis
    unfolding readLn_def n rb using fit sz crlf_buffer [of l ?B]
    by (simp add: size_sub_simp Let_def touch_def peek_def poke_def pk)
qed

lemma readLn_crlf_line_full:
  assumes rx: "rx m = ds @ rest" and bytes: "map snd ds = l @ [CR]"
    and del: "\<forall>x\<in>set ds. fst x \<le> to" and nolf: "LF \<notin> set l"
    and fit: "length l + 2 = sizeN" and sz: "sizeN \<le> length (inputBuffer m)" "sizeN < SIZE_T"
  shows "readLn sizeN to m =
    (length l, m\<lparr>clock := clock m + sum_list (map fst ds), rx := rest,
                   inputBuffer := l @ NUL # drop (length l + 1) (inputBuffer m)\<rparr>)"
proof -
  let ?B = "inputBuffer m"
  let ?n = "sizeN - 1"
  from bytes have "length (map snd ds) = length (l @ [CR])" by (rule arg_cong)
  then have len1: "length ds = length l + 1" by simp
  have n: "size_sub sizeN 1 = ?n" using fit sz by (simp add: size_sub_simp)
  have nt: "\<forall>y\<in>set ds. snd y \<noteq> LF"
  proof
    fix y assume "y \<in> set ds"
    then have "snd y \<in> set (map snd ds)" by simp
    then have "snd y \<in> set l \<or> snd y = CR" unfolding bytes by auto
    then show "snd y \<noteq> LF" using nolf by (auto simp: CR_def LF_def)
  qed
  let ?ma = "m\<lparr>clock := clock m + sum_list (map fst ds), rx := rest,
                inputBuffer := l @ CR # drop (length l + 1) ?B\<rparr>"
  have "readBytesUntil_loop LF ?n to 0 m = readBytesUntil_loop LF ?n to (0 + length ds)
     (m\<lparr>clock := clock m + sum_list (map fst ds), rx := rest,
        inputBuffer := take 0 ?B @ map snd ds @ drop (0 + length ds) ?B\<rparr>)"
    using rx del nt fit sz len1 by (intro rbu_chunk) auto
  then have c1: "readBytesUntil_loop LF ?n to 0 m = readBytesUntil_loop LF ?n to (length l + 1) ?ma"
    by (simp add: bytes len1)
  have c2: "readBytesUntil_loop LF ?n to (length l + 1) ?ma = (length l + 1, ?ma)"
    using fit by (subst rbu_done) auto
  have rb: "readBytesUntil LF ?n to m = (length l + 1, ?ma)"
    unfolding readBytesUntil_def c1 c2 using fit sz by simp
  have pk: "(l @ CR # drop (length l + 1) ?B) ! length l = CR"
    by (simp add: nth_append)
  show ?thesis
    unfolding readLn_def n rb using fit sz
    by (simp add: size_sub_simp Let_def touch_def peek_def poke_def pk list_update_append)
qed


subsection \<open>A line with its terminator\<close>

text \<open>
  Claim C10: when the UART delivers a line \<open>l\<close> followed by CR LF, every byte within the
  byte timeout, and the line with its two terminator bytes fits in the \<open>sizeN\<close> bytes of
  the buffer, \<^verbatim>\<open>readLn\<close> returns the length of \<open>l\<close>, which counts neither CR nor LF,
  the buffer holds NUL at that index, and the bytes before it are \<open>l\<close>.
\<close>

theorem readLn_excludes_terminator:
  assumes rx: "rx m = ds @ rest" and bytes: "map snd ds = l @ [CR, LF]"
    and del: "\<forall>x\<in>set ds. fst x \<le> timeout" and nolf: "LF \<notin> set l"
    and fit: "length l + 2 \<le> sizeN" and sz: "sizeN \<le> length (inputBuffer m)" "sizeN < SIZE_T"
  shows "fst (readLn sizeN timeout m) = length l
    \<and> inputBuffer (snd (readLn sizeN timeout m)) ! length l = NUL
    \<and> take (length l) (inputBuffer (snd (readLn sizeN timeout m))) = l"
proof (cases "length l + 3 \<le> sizeN")
  case True
  from readLn_crlf_line [OF rx bytes del nolf True sz]
  show ?thesis by (simp add: nth_append)
next
  case False
  with fit have full: "length l + 2 = sizeN" by simp
  from bytes have ne: "ds \<noteq> []" by auto
  have "map snd (butlast ds) = butlast (map snd ds)" by (rule map_butlast)
  with bytes have b1: "map snd (butlast ds) = l @ [CR]" by (simp add: butlast_append)
  from ne rx have rx1: "rx m = butlast ds @ (last ds # rest)" by simp
  from del have d1: "\<forall>x\<in>set (butlast ds). fst x \<le> timeout"
    by (meson in_set_butlastD)
  from readLn_crlf_line_full [OF rx1 b1 d1 nolf full sz]
  show ?thesis by (simp add: nth_append)
qed

text \<open>The line \<^verbatim>\<open>OK\<close> with its terminator, read into a buffer of eight bytes.\<close>

theorem readLn_excludes_terminator_witness:
  "fst (readLn 8 250 (idle (pending (''OK'' @ [CR, LF])) ''xxxxxxxx'' (CHR ''y'') None)) = 2
    \<and> inputBuffer (snd (readLn 8 250 (idle (pending (''OK'' @ [CR, LF])) ''xxxxxxxx'' (CHR ''y'') None))) ! 2 = NUL
    \<and> take 2 (inputBuffer (snd (readLn 8 250 (idle (pending (''OK'' @ [CR, LF])) ''xxxxxxxx'' (CHR ''y'') None)))) = ''OK''"
proof -
  let ?m = "idle (pending (''OK'' @ [CR, LF])) ''xxxxxxxx'' (CHR ''y'') None"
  have "fst (readLn 8 250 ?m) = length ''OK''
    \<and> inputBuffer (snd (readLn 8 250 ?m)) ! length ''OK'' = NUL
    \<and> take (length ''OK'') (inputBuffer (snd (readLn 8 250 ?m))) = ''OK''"
    by (rule readLn_excludes_terminator [where ds = "pending (''OK'' @ [CR, LF])" and rest = "[]"])
      (simp_all add: idle_def pending_def CR_def LF_def SIZE_T_def)
  then show ?thesis by (simp add: numeral_2_eq_2)
qed

subsection \<open>The empty line\<close>

text \<open>
  When no byte was collected before the read stopped, \<^verbatim>\<open>len\<close> is 0 and \<^verbatim>\<open>readLn\<close> still
  evaluates \<^verbatim>\<open>buffer[len - 1]\<close>, which is \<^verbatim>\<open>buffer[SIZE_MAX]\<close>, the byte below the buffer.
  This happens on every read that times out with nothing received:
\<close>

lemma readLn_timeout_out_of_bounds:
  "stray (snd (readLn 4 250 (idle [] ''abcd'' (CHR ''y'') None))) = [SIZE_T - 1]"
  by (simp add: run_defs)

text \<open>
  Claim C2 says that for an empty line \<^verbatim>\<open>readLn\<close> makes no access outside the buffer
  and that the returned length never underflows. On the line that consists of LF alone
  the read of \<^verbatim>\<open>buffer[SIZE_MAX]\<close> is made; if the byte found there is CR, the length
  becomes \<^verbatim>\<open>SIZE_MAX\<close> and the NUL is stored outside the buffer as well.
\<close>

theorem readLn_empty_line_out_of_bounds:
  "fst (readLn 4 250 (idle (pending [LF]) ''abcd'' (CHR ''y'') None)) = 0
   \<and> stray (snd (readLn 4 250 (idle (pending [LF]) ''abcd'' (CHR ''y'') None))) = [SIZE_T - 1]
   \<and> fst (readLn 4 250 (idle (pending [LF]) ''abcd'' CR None)) = SIZE_T - 1
   \<and> stray (snd (readLn 4 250 (idle (pending [LF]) ''abcd'' CR None))) = [SIZE_T - 1, SIZE_T - 1]
   \<and> below (snd (readLn 4 250 (idle (pending [LF]) ''abcd'' CR None))) = NUL"
  by (simp add: run_defs)

text \<open>
  For a buffer of at least one byte, \<^verbatim>\<open>SIZE_MAX\<close> is the only index outside the buffer
  that \<^verbatim>\<open>readLn\<close> reaches: the bytes it stores while reading stay inside.
\<close>

lemma rbu_loop_bounds:
  "i \<le> n \<Longrightarrow> n \<le> length (inputBuffer m) \<Longrightarrow>
   fst (readBytesUntil_loop t n to i m) \<le> n
   \<and> stray (snd (readBytesUntil_loop t n to i m)) = stray m
   \<and> below (snd (readBytesUntil_loop t n to i m)) = below m
   \<and> length (inputBuffer (snd (readBytesUntil_loop t n to i m))) = length (inputBuffer m)"
proof (induction t n to i m rule: readBytesUntil_loop.induct)
  case (1 t n to i m)
  show ?case
  proof (cases "i < n")
    case False
    with "1.prems" show ?thesis by (simp add: rbu_done)
  next
    case True
    obtain r m' where tr: "timedRead to m = (r, m')" by (cases "timedRead to m")
    then have s1: "stray m' = stray m" "below m' = below m" "inputBuffer m' = inputBuffer m"
      by (auto simp: timedRead_def split: list.splits if_splits)
    show ?thesis
    proof (cases r)
      case None
      with True tr s1 show ?thesis by (subst (1 2 3 4) readBytesUntil_loop.simps) simp
    next
      case (Some c)
      show ?thesis
      proof (cases "c = t")
        case True
        with \<open>i < n\<close> tr s1 Some show ?thesis by (subst (1 2 3 4) readBytesUntil_loop.simps) simp
      next
        case False
        from True "1.prems" s1 have inb: "i < length (inputBuffer m')" by simp
        then have pk: "stray (poke i c m') = stray m'" "below (poke i c m') = below m'"
          "length (inputBuffer (poke i c m')) = length (inputBuffer m')"
          by (simp_all add: poke_def)
        from "1.IH" [OF True tr [symmetric] Some False] True "1.prems" s1 pk
        have "fst (readBytesUntil_loop t n to (Suc i) (poke i c m')) \<le> n
          \<and> stray (snd (readBytesUntil_loop t n to (Suc i) (poke i c m'))) = stray m
          \<and> below (snd (readBytesUntil_loop t n to (Suc i) (poke i c m'))) = below m
          \<and> length (inputBuffer (snd (readBytesUntil_loop t n to (Suc i) (poke i c m'))))
                = length (inputBuffer m)"
          by simp
        with True tr Some False show ?thesis by (subst (1 2 3 4) readBytesUntil_loop.simps) simp
      qed
    qed
  qed
qed

lemma readLn_stray:
  assumes "1 \<le> sizeN" and "sizeN \<le> length (inputBuffer m)" and "sizeN < SIZE_T"
  shows "set (stray (snd (readLn sizeN to m))) \<subseteq> insert (SIZE_T - 1) (set (stray m))"
proof -
  let ?n = "sizeN - 1"
  obtain k m1 where r: "readBytesUntil_loop LF ?n to 0 m = (k, m1)"
    by (cases "readBytesUntil_loop LF ?n to 0 m")
  from assms have n: "size_sub sizeN 1 = ?n" by (simp add: size_sub_simp)
  from rbu_loop_bounds [of 0 ?n m LF to] assms r
  have b: "k \<le> ?n" "stray m1 = stray m" "length (inputBuffer m1) = length (inputBuffer m)"
    by simp_all
  from b assms have kl: "k < length (inputBuffer m1)" "k < SIZE_T" by simp_all
  obtain m2 where rb: "readBytesUntil LF ?n to m = (k, m2)" and s2: "stray m2 = stray m"
    and l2: "length (inputBuffer m2) = length (inputBuffer m)"
    using r b kl by (cases "?n < 1") (auto simp: readBytesUntil_def poke_def rbu_done)
  have sub0: "size_sub 0 (Suc 0) = SIZE_T - 1" by (simp add: size_sub_def SIZE_T_def)
  show ?thesis
  proof (cases "k = 0")
    case True
    with rb s2 l2 assms show ?thesis
      unfolding readLn_def n rb
      by (auto simp: Let_def touch_def peek_def poke_def sub0 SIZE_T_def)
  next
    case False
    with kl have "size_sub k 1 = k - 1" by (simp add: size_sub_simp)
    with False rb s2 l2 b assms show ?thesis
      unfolding readLn_def n rb
      by (auto simp: Let_def touch_def peek_def poke_def)
  qed
qed

section \<open>A turn of the loop\<close>








section \<open>The watchdog\<close>

text \<open>
  Claim C3 says that \<^verbatim>\<open>sodaq_wdt_reset\<close> is called once in every turn of the loop that
  produced data and not in a turn whose line read returned zero bytes. The source calls it
  right after \<^verbatim>\<open>readLn\<close>, before \<^verbatim>\<open>count\<close> is looked at. With nothing on the UART the
  line read returns 0 after its timeout and the turn still resets the watchdog.
\<close>

theorem wdt_reset_without_data:
  "fst (readLn_input 250 (idle [] ''xxxxxxxx'' (CHR ''y'') None)) = 0
   \<and> wdt (idle [] ''xxxxxxxx'' (CHR ''y'') None) = 0
   \<and> wdt (snd (snd (loop_body (\<lambda>l. False) 0 None False False 0
                        (idle [] ''xxxxxxxx'' (CHR ''y'') None)))) = 1"
  by (simp add: run_defs)

text \<open>
  Claim C3 as amended: every turn of the loop of \<^verbatim>\<open>readResponse\<close> calls
  \<^verbatim>\<open>sodaq_wdt_reset\<close> exactly once, whether its line read returned data or zero bytes.
\<close>

theorem wdt_reset_every_iteration:
  "wdt (snd (snd (loop_body checkURC outMaxSize prefix usePrefix useOutBuffer outSize m)))
     = Suc (wdt m)"
proof -
  obtain len m1 where r: "readLn_input 250 m = (len, m1)"
    by (cases "readLn_input 250 m")
  then have w1: "wdt m1 = wdt m"
    using readLn_input_side [of m 250] line_side_fields by fastforce
  have a: "wdt (snd (assemble hp prefix outMaxSize k outSize m')) = wdt m'" for hp k m'
    using assemble_side out_side_fields by blast
  show ?thesis
    using r w1 by (simp add: loop_body_def Let_def sodaq_wdt_reset_def a split: prod.splits)
qed

section \<open>Classifying a line\<close>



section \<open>Unsolicited result codes\<close>




section \<open>Writes that miss the bound or the terminator\<close>

text \<open>
  Claim C1 says that every write to the output buffer, the clearing write included, is at
  an index below \<^verbatim>\<open>outMaxSize\<close>, also for the capacity 0. The clearing write
  \<^verbatim>\<open>outBuffer[0] = 0\<close> is guarded by \<^verbatim>\<open>if (outBuffer)\<close> alone, not by \<^verbatim>\<open>useOutBuffer\<close>:
  with a buffer that is not NULL and \<^verbatim>\<open>outMaxSize = 0\<close> the index 0 is written.
\<close>

theorem clear_write_at_capacity_zero:
  "map_option (\<lambda>(r, m'). (r, written m'))
     (readResponse (\<lambda>l. False) 0 None 1000
        (idle (pending (''OK'' @ [CR, LF])) ''xxxxxxxx'' (CHR ''y'') (Some [])))
   = Some (GSMResponseOK, [0])"
  by (simp add: run_defs)

text \<open>
  Claim C5 says that a payload line that does not fit leaves the buffer NUL-terminated.
  With \<^verbatim>\<open>outMaxSize = 4\<close> and no expected prefix, the line \<^verbatim>\<open>ab\<close> leaves \<^verbatim>\<open>outSize = 2\<close> and
  the NUL at index 2. For the next line \<^verbatim>\<open>cd\<close> the separator is stored at index 2, over
  the NUL, and \<^verbatim>\<open>outSize\<close> becomes 3, which is \<^verbatim>\<open>outMaxSize - 1\<close>: the block that copies
  and stores the new NUL is skipped. The four bytes of the buffer end up holding no NUL.
\<close>

theorem separator_overwrites_terminator:
  "map_option (\<lambda>(r, m'). (r, outBuffer m'))
     (readResponse (\<lambda>l. False) 4 None 1000
        (idle (pending (''ab'' @ [CR, LF] @ ''cd'' @ [CR, LF] @ ''OK'' @ [CR, LF]))
           ''xxxxxxxx'' (CHR ''y'') (Some ''zzzz'')))
   = Some (GSMResponseOK, Some (''ab'' @ [LF] @ ''z''))"
  by (simp add: run_defs)

text \<open>
  Claim C8 says that at a timeout the output buffer is still NUL-terminated. The same two
  lines with no \<^verbatim>\<open>OK\<close> after them end in \<^verbatim>\<open>GSMResponseTimeout\<close> with the same four bytes.
\<close>

theorem timeout_leaves_unterminated_buffer:
  "map_option (\<lambda>(r, m'). (r, outBuffer m'))
     (readResponse (\<lambda>l. False) 4 None 300
        (idle (pending (''ab'' @ [CR, LF] @ ''cd'' @ [CR, LF]))
           ''xxxxxxxx'' (CHR ''y'') (Some ''zzzz'')))
   = Some (GSMResponseTimeout, Some (''ab'' @ [LF] @ ''z''))"
  by (simp add: run_defs)

section \<open>The call returns\<close>

text \<open>
  Every line read takes a byte from the UART or lets at least 251 ms pass, so the loop of
  \<^verbatim>\<open>readResponse\<close> ends for every input, given a line buffer of at least two bytes. It
  returns \<^verbatim>\<open>GSMResponseTimeout\<close> only once the timeout is over, and another outcome only
  with the line that stands for it in the line buffer.
\<close>

lemma poke_keeps: "rx (poke i c m) = rx m" "clock (poke i c m) = clock m"
  "length (inputBuffer (poke i c m)) = length (inputBuffer m)"
  by (simp_all add: poke_def)

lemma touch_keeps: "rx (touch i m) = rx m" "clock (touch i m) = clock m"
  "inputBuffer (touch i m) = inputBuffer m"
  by (simp_all add: touch_def)

lemma timedRead_mono:
  "length (rx (snd (timedRead to m))) \<le> length (rx m) \<and> clock m \<le> clock (snd (timedRead to m))
   \<and> length (inputBuffer (snd (timedRead to m))) = length (inputBuffer m)"
  by (auto simp: timedRead_def split: list.splits)

lemma rbu_loop_mono:
  "length (rx (snd (readBytesUntil_loop t n to i m))) \<le> length (rx m)
   \<and> clock m \<le> clock (snd (readBytesUntil_loop t n to i m))
   \<and> length (inputBuffer (snd (readBytesUntil_loop t n to i m))) = length (inputBuffer m)"
proof (induction t n to i m rule: readBytesUntil_loop.induct)
  case (1 t n to i m)
  show ?case
  proof (cases "i < n")
    case False
    then show ?thesis by (simp add: rbu_done)
  next
    case True
    obtain r m' where tr: "timedRead to m = (r, m')" by (cases "timedRead to m")
    from timedRead_mono [of to m] tr
    have s1: "length (rx m') \<le> length (rx m)" "clock m \<le> clock m'"
      "length (inputBuffer m') = length (inputBuffer m)" by simp_all
    show ?thesis
    proof (cases r)
      case None
      with True tr s1 show ?thesis by (subst (1 2 3) readBytesUntil_loop.simps) simp
    next
      case (Some c)
      show ?thesis
      proof (cases "c = t")
        case True
        with \<open>i < n\<close> tr s1 Some show ?thesis by (subst (1 2 3) readBytesUntil_loop.simps) simp
      next
        case False
        from "1.IH" [OF True tr [symmetric] Some False] s1
        have "length (rx (snd (readBytesUntil_loop t n to (Suc i) (poke i c m')))) \<le> length (rx m)
          \<and> clock m \<le> clock (snd (readBytesUntil_loop t n to (Suc i) (poke i c m')))
          \<and> length (inputBuffer (snd (readBytesUntil_loop t n to (Suc i) (poke i c m'))))
                = length (inputBuffer m)"
          by (simp add: poke_keeps)
        with True tr Some False show ?thesis by (subst (1 2 3) readBytesUntil_loop.simps) simp
      qed
    qed
  qed
qed

lemma rbu_loop_progress:
  assumes "i < n"
  shows "length (rx (snd (readBytesUntil_loop t n to i m))) < length (rx m)
       \<or> clock m + to + 1 \<le> clock (snd (readBytesUntil_loop t n to i m))"
proof (cases "rx m")
  case Nil
  with assms show ?thesis by (simp add: rbu_empty)
next
  case (Cons x rest)
  show ?thesis
  proof (cases "fst x \<le> to")
    case False
    with assms Cons show ?thesis by (simp add: rbu_late)
  next
    case le: True
    show ?thesis
    proof (cases "snd x = t")
      case True
      with assms Cons le show ?thesis by (simp add: rbu_term)
    next
      case False
      let ?m1 = "poke i (snd x) (m\<lparr>clock := clock m + fst x, rx := rest\<rparr>)"
      from assms Cons le False
      have "readBytesUntil_loop t n to i m = readBytesUntil_loop t n to (i + 1) ?m1"
        by (simp add: rbu_byte)
      moreover from rbu_loop_mono [of t n to "i + 1" ?m1]
      have "length (rx (snd (readBytesUntil_loop t n to (i + 1) ?m1))) \<le> length rest"
        by (simp add: poke_keeps)
      ultimately show ?thesis using Cons by simp
    qed
  qed
qed

lemma readLn_input_progress:
  assumes "2 \<le> length (inputBuffer m)" and "length (inputBuffer m) < SIZE_T"
  shows "(length (rx (snd (readLn_input to m))) < length (rx m)
            \<and> clock m \<le> clock (snd (readLn_input to m))
          \<or> length (rx (snd (readLn_input to m))) \<le> length (rx m)
            \<and> clock m + to + 1 \<le> clock (snd (readLn_input to m)))
       \<and> length (inputBuffer (snd (readLn_input to m))) = length (inputBuffer m)"
proof -
  let ?n = "length (inputBuffer m) - 1"
  let ?r = "readBytesUntil_loop LF ?n to 0 m"
  from assms have n: "size_sub (length (inputBuffer m)) 1 = ?n" by (simp add: size_sub_simp)
  from assms have pos: "0 < ?n" by simp
  have keep: "rx (snd (readLn_input to m)) = rx (snd ?r)"
    "clock (snd (readLn_input to m)) = clock (snd ?r)"
    "length (inputBuffer (snd (readLn_input to m))) = length (inputBuffer (snd ?r))"
    unfolding readLn_input_def readLn_def n readBytesUntil_def using pos
    by (simp_all add: Let_def poke_keeps touch_keeps split: prod.splits)
  show ?thesis
    unfolding keep using rbu_loop_mono [of LF ?n to 0 m] rbu_loop_progress [OF pos, of LF to m]
    by auto
qed


lemma loop_body_keeps:
  "rx (snd (snd (loop_body c oms p up uo os m))) = rx (snd (readLn_input 250 m))
   \<and> clock (snd (snd (loop_body c oms p up uo os m))) = clock (snd (readLn_input 250 m))
   \<and> inputBuffer (snd (snd (loop_body c oms p up uo os m))) = inputBuffer (snd (readLn_input 250 m))"
proof -
  have a: "rx (snd (assemble hp p oms k os x)) = rx x \<and> clock (snd (assemble hp p oms k os x)) = clock x
      \<and> inputBuffer (snd (assemble hp p oms k os x)) = inputBuffer x" for hp k x
    using assemble_side [of x hp p oms k os] out_side_fields by blast
  show ?thesis
    by (cases "readLn_input 250 m")
       (simp add: loop_body_def Let_def sodaq_wdt_reset_def a split: prod.splits)
qed

lemma loop_body_returns:
  assumes "loop_body c oms p up uo os m = (Some x, os', m1)"
  shows "x = GSMResponseOK \<and> startsWith ''OK'' (getInputBuffer m1)
       \<or> x = GSMResponseError \<and> (startsWith ''ERROR'' (getInputBuffer m1)
            \<or> startsWith ''+CME ERROR:'' (getInputBuffer m1)
            \<or> startsWith ''+CMS ERROR:'' (getInputBuffer m1))"
proof -
  have g: "getInputBuffer (sodaq_wdt_reset y) = getInputBuffer y" for y
    by (simp add: getInputBuffer_def sodaq_wdt_reset_def)
  show ?thesis
    using assms
    by (cases "readLn_input 250 m")
       (auto simp: loop_body_def Let_def g split: prod.splits if_splits)
qed

lemma readResponse_loop_returns:
  assumes "2 \<le> length (inputBuffer m)" and "length (inputBuffer m) < SIZE_T"
  shows "\<exists>r m'. readResponse_loop c oms p up uo t from os m = Some (r, m')
     \<and> (r = GSMResponseTimeout \<and> is_timedout from t m'
        \<or> r = GSMResponseOK \<and> startsWith ''OK'' (getInputBuffer m')
        \<or> r = GSMResponseError \<and> (startsWith ''ERROR'' (getInputBuffer m')
            \<or> startsWith ''+CME ERROR:'' (getInputBuffer m')
            \<or> startsWith ''+CMS ERROR:'' (getInputBuffer m')))"
  using assms
proof (induction "length (rx m) + (from + t + 1 - clock m)" arbitrary: m os rule: less_induct)
  case less
  show ?case
  proof (cases "is_timedout from t m")
    case True
    then show ?thesis by (simp add: rl_timeout)
  next
    case False
    obtain r os' m1 where b: "loop_body c oms p up uo os m = (r, os', m1)"
      by (cases "loop_body c oms p up uo os m")
    show ?thesis
    proof (cases r)
      case (Some x)
      with b loop_body_returns [of c oms p up uo os m x os' m1] False
      show ?thesis by (simp add: rl_step)
    next
      case None
      from loop_body_keeps [of c oms p up uo os m] b
      have k: "rx m1 = rx (snd (readLn_input 250 m))" "clock m1 = clock (snd (readLn_input 250 m))"
        "inputBuffer m1 = inputBuffer (snd (readLn_input 250 m))" by simp_all
      from readLn_input_progress [OF less.prems, of 250]
      have pr: "length (rx m1) < length (rx m) \<and> clock m \<le> clock m1
          \<or> length (rx m1) \<le> length (rx m) \<and> clock m + 250 + 1 \<le> clock m1"
        and len: "length (inputBuffer m1) = length (inputBuffer m)"
        unfolding k by simp_all
      from False have "clock m \<le> from + t" by (simp add: is_timedout_def)
      with pr have "length (rx m1) + (from + t + 1 - clock m1) < length (rx m) + (from + t + 1 - clock m)"
        by auto
      then have "\<exists>r m'. readResponse_loop c oms p up uo t from os' m1 = Some (r, m')
         \<and> (r = GSMResponseTimeout \<and> is_timedout from t m'
            \<or> r = GSMResponseOK \<and> startsWith ''OK'' (getInputBuffer m')
            \<or> r = GSMResponseError \<and> (startsWith ''ERROR'' (getInputBuffer m')
                \<or> startsWith ''+CME ERROR:'' (getInputBuffer m')
                \<or> startsWith ''+CMS ERROR:'' (getInputBuffer m')))"
        using less.prems unfolding len [symmetric] by (rule less.hyps)
      with False b None show ?thesis by (simp add: rl_step)
    qed
  qed
qed

lemma readResponse_returns:
  assumes "2 \<le> length (inputBuffer m)" and "length (inputBuffer m) < SIZE_T"
  shows "\<exists>r m'. readResponse checkURC outMaxSize prefix timeout m = Some (r, m')
     \<and> (r = GSMResponseTimeout \<and> is_timedout (clock m) timeout m'
        \<or> r = GSMResponseOK \<and> startsWith ''OK'' (getInputBuffer m')
        \<or> r = GSMResponseError \<and> (startsWith ''ERROR'' (getInputBuffer m')
            \<or> startsWith ''+CME ERROR:'' (getInputBuffer m')
            \<or> startsWith ''+CMS ERROR:'' (getInputBuffer m')))"
  unfolding readResponse_def Let_def
  using assms by (intro readResponse_loop_returns) (simp_all add: poke_out_def)

section \<open>Echoes and the final OK\<close>





section \<open>Payload lines with an expected prefix\<close>
















end
